theory Spec2Isabelle
  imports Main "HOL-Library.Word"
begin

section \<open>Go strings\<close>

text \<open>
  A Go \<^verbatim>\<open>string\<close> is a sequence of bytes, and so is a HOL \<^typ>\<open>string\<close>
  (a list of 8-bit \<^typ>\<open>char\<close>). The functions of package \<^verbatim>\<open>strings\<close> that
  the wiki client calls are written out byte by byte.
\<close>

definition HasPrefix :: "string \<Rightarrow> string \<Rightarrow> bool" where
  "HasPrefix s p = (take (length p) s = p)"

definition HasSuffix :: "string \<Rightarrow> string \<Rightarrow> bool" where
  "HasSuffix s p = (length p \<le> length s \<and> drop (length s - length p) s = p)"

fun Contains :: "string \<Rightarrow> string \<Rightarrow> bool" where
  "Contains [] sub = (sub = [])"
| "Contains (c # cs) sub = (HasPrefix (c # cs) sub \<or> Contains cs sub)"

text \<open>
  \<^verbatim>\<open>strings.ReplaceAll(s, old, new)\<close> replaces the non-overlapping occurrences of
  \<^verbatim>\<open>old\<close>, leftmost first. Every call site of the program passes a non-empty literal
  for \<^verbatim>\<open>old\<close>; the library's rule for an empty \<^verbatim>\<open>old\<close> (insertion between
  code points) is not needed and the model leaves \<^verbatim>\<open>s\<close> unchanged there.
\<close>

function ReplaceAll :: "string \<Rightarrow> string \<Rightarrow> string \<Rightarrow> string" where
  "ReplaceAll [] old new = []"
| "ReplaceAll (c # cs) old new =
     (if old \<noteq> [] \<and> HasPrefix (c # cs) old
      then new @ ReplaceAll (drop (length old) (c # cs)) old new
      else c # ReplaceAll cs old new)"
  by pat_completeness auto
termination
  by (relation "measure (\<lambda>(s, old, new). length s)") auto

text \<open>
  \<^verbatim>\<open>strings.TrimSpace\<close> removes leading and trailing white space as
  \<^verbatim>\<open>unicode.IsSpace\<close> defines it. On the bytes of a string these are the UTF-8
  encodings of U+0009..U+000D, U+0020, U+0085, U+00A0, U+1680, U+2000..U+200A, U+2028,
  U+2029, U+202F, U+205F and U+3000.
\<close>

definition spaceRunes :: "string list" where
  "spaceRunes =
    [[CHR 0x09], [CHR 0x0A], [CHR 0x0B], [CHR 0x0C], [CHR 0x0D], [CHR 0x20],
     [CHR 0xC2, CHR 0x85], [CHR 0xC2, CHR 0xA0],
     [CHR 0xE1, CHR 0x9A, CHR 0x80],
     [CHR 0xE2, CHR 0x80, CHR 0x80], [CHR 0xE2, CHR 0x80, CHR 0x81],
     [CHR 0xE2, CHR 0x80, CHR 0x82], [CHR 0xE2, CHR 0x80, CHR 0x83],
     [CHR 0xE2, CHR 0x80, CHR 0x84], [CHR 0xE2, CHR 0x80, CHR 0x85],
     [CHR 0xE2, CHR 0x80, CHR 0x86], [CHR 0xE2, CHR 0x80, CHR 0x87],
     [CHR 0xE2, CHR 0x80, CHR 0x88], [CHR 0xE2, CHR 0x80, CHR 0x89],
     [CHR 0xE2, CHR 0x80, CHR 0x8A],
     [CHR 0xE2, CHR 0x80, CHR 0xA8], [CHR 0xE2, CHR 0x80, CHR 0xA9],
     [CHR 0xE2, CHR 0x80, CHR 0xAF],
     [CHR 0xE2, CHR 0x81, CHR 0x9F],
     [CHR 0xE3, CHR 0x80, CHR 0x80]]"

lemma spaceRunes_nonempty: "p \<in> set spaceRunes \<Longrightarrow> p \<noteq> []"
  by (auto simp: spaceRunes_def)

lemma find_spaceRunes_prefix:
  "find (HasPrefix s) spaceRunes = Some p \<Longrightarrow> length (drop (length p) s) < length s"
proof -
  assume f: "find (HasPrefix s) spaceRunes = Some p"
  then have "p \<in> set spaceRunes" and hp: "HasPrefix s p"
    by (auto simp: find_Some_iff)
  then have "p \<noteq> []" by (simp add: spaceRunes_nonempty)
  with hp have "s \<noteq> []" by (auto simp: HasPrefix_def)
  with \<open>p \<noteq> []\<close> show ?thesis by simp
qed

lemma find_spaceRunes_suffix:
  "find (HasSuffix s) spaceRunes = Some p \<Longrightarrow> length (take (length s - length p) s) < length s"
proof -
  assume f: "find (HasSuffix s) spaceRunes = Some p"
  then have "p \<in> set spaceRunes" and hp: "HasSuffix s p"
    by (auto simp: find_Some_iff)
  then have "p \<noteq> []" by (simp add: spaceRunes_nonempty)
  with hp have "s \<noteq> []" by (auto simp: HasSuffix_def)
  with \<open>p \<noteq> []\<close> show ?thesis by simp
qed

function TrimLeftSpace :: "string \<Rightarrow> string" where
  "TrimLeftSpace s =
     (case find (HasPrefix s) spaceRunes of
        None \<Rightarrow> s
      | Some p \<Rightarrow> TrimLeftSpace (drop (length p) s))"
  by pat_completeness auto
termination
  by (relation "measure length") (auto dest: find_spaceRunes_prefix)

function TrimRightSpace :: "string \<Rightarrow> string" where
  "TrimRightSpace s =
     (case find (HasSuffix s) spaceRunes of
        None \<Rightarrow> s
      | Some p \<Rightarrow> TrimRightSpace (take (length s - length p) s))"
  by pat_completeness auto
termination
  by (relation "measure length") (auto dest: find_spaceRunes_suffix)

definition TrimSpace :: "string \<Rightarrow> string" where
  "TrimSpace s = TrimRightSpace (TrimLeftSpace s)"

section \<open>Snippet cleaning\<close>

text \<open>
  The loop \<^verbatim>\<open>for strings.Contains(cleaned, "  ") { ... }\<close> of \<^verbatim>\<open>cleanSnippet\<close>.
  Each round shortens the string, which is its termination argument.
\<close>

lemma HasPrefix_length: "HasPrefix s p \<Longrightarrow> length p \<le> length s"
proof -
  assume "HasPrefix s p"
  then have "length (take (length p) s) = length p" by (simp add: HasPrefix_def)
  then show ?thesis by simp
qed

lemma ReplaceAll_Cons_match:
  "old \<noteq> [] \<and> HasPrefix (c # cs) old \<Longrightarrow>
   ReplaceAll (c # cs) old new = new @ ReplaceAll (drop (length old) (c # cs)) old new"
  by (simp del: drop_Suc_Cons)

lemma ReplaceAll_Cons_skip:
  "\<not> (old \<noteq> [] \<and> HasPrefix (c # cs) old) \<Longrightarrow>
   ReplaceAll (c # cs) old new = c # ReplaceAll cs old new"
  by auto

lemma ReplaceAll_length_le:
  "length new \<le> length old \<Longrightarrow> length (ReplaceAll s old new) \<le> length s"
proof (induction s old new rule: ReplaceAll.induct)
  case (1 old new)
  then show ?case by simp
next
  case (2 c cs old new)
  show ?case
  proof (cases "old \<noteq> [] \<and> HasPrefix (c # cs) old")
    case True
    then have len: "length old \<le> length (c # cs)"
      by (simp only: HasPrefix_length)
    from True 2 have "length (ReplaceAll (drop (length old) (c # cs)) old new)
        \<le> length (drop (length old) (c # cs))"
      by blast
    then have "length (ReplaceAll (drop (length old) (c # cs)) old new)
        \<le> length (c # cs) - length old"
      by (simp only: length_drop)
    moreover have "ReplaceAll (c # cs) old new = new @ ReplaceAll (drop (length old) (c # cs)) old new"
      using True by (rule ReplaceAll_Cons_match)
    ultimately show ?thesis using len 2(3) by (simp only: length_append)
  next
    case False
    then have "ReplaceAll (c # cs) old new = c # ReplaceAll cs old new"
      by (rule ReplaceAll_Cons_skip)
    moreover from False 2 have "length (ReplaceAll cs old new) \<le> length cs" by blast
    ultimately show ?thesis by simp
  qed
qed

lemma ReplaceAll_length_less:
  "Contains s old \<Longrightarrow> length new < length old \<Longrightarrow> length (ReplaceAll s old new) < length s"
proof (induction s old new rule: ReplaceAll.induct)
  case (1 old new)
  then show ?case by simp
next
  case (2 c cs old new)
  from 2(4) have ne: "old \<noteq> []" by auto
  show ?case
  proof (cases "HasPrefix (c # cs) old")
    case True
    then have len: "length old \<le> length (c # cs)"
      by (simp only: HasPrefix_length)
    have "length (ReplaceAll (drop (length old) (c # cs)) old new)
        \<le> length (drop (length old) (c # cs))"
      using 2(4) by (intro ReplaceAll_length_le) simp
    then have "length (ReplaceAll (drop (length old) (c # cs)) old new)
        \<le> length (c # cs) - length old"
      by (simp only: length_drop)
    moreover have "ReplaceAll (c # cs) old new = new @ ReplaceAll (drop (length old) (c # cs)) old new"
      using ne True by (intro ReplaceAll_Cons_match conjI)
    ultimately show ?thesis using len 2(4) by (simp only: length_append)
  next
    case False
    then have "ReplaceAll (c # cs) old new = c # ReplaceAll cs old new"
      by (intro ReplaceAll_Cons_skip) simp
    moreover from False 2(3) have "Contains cs old" by simp
    with False 2(2,4) have "length (ReplaceAll cs old new) < length cs" by blast
    ultimately show ?thesis by simp
  qed
qed

function collapseSpaces :: "string \<Rightarrow> string" where
  "collapseSpaces s =
     (if Contains s ''  '' then collapseSpaces (ReplaceAll s ''  '' '' '') else s)"
  by pat_completeness auto
termination
proof (relation "measure length")
  show "wf (measure length)" by simp
next
  fix s :: string
  assume "Contains s ''  ''"
  then have "length (ReplaceAll s ''  '' '' '') < length s"
    by (rule ReplaceAll_length_less) simp
  then show "(ReplaceAll s ''  '' '' '', s) \<in> measure length" by simp
qed

definition spanOpen :: string where
  "spanOpen = ''<span class='' @ [CHR 0x22] @ ''searchmatch'' @ [CHR 0x22] @ ''>''"

definition cleanSnippet :: "string \<Rightarrow> string" where
  "cleanSnippet snippet =
     (let cleaned = ReplaceAll snippet spanOpen '''';
          cleaned = ReplaceAll cleaned ''</span>'' '''';
          cleaned = ReplaceAll cleaned ''&quot;'' [CHR 0x22];
          cleaned = ReplaceAll cleaned ''&amp;'' ''&'';
          cleaned = ReplaceAll cleaned ''&lt;'' ''<'';
          cleaned = ReplaceAll cleaned ''&gt;'' ''>'';
          cleaned = TrimSpace cleaned;
          cleaned = ReplaceAll cleaned [CHR 0x0A] '' '';
          cleaned = ReplaceAll cleaned [CHR 0x09] '' ''
      in collapseSpaces cleaned)"

subsection \<open>Facts about the string functions\<close>

declare ReplaceAll.simps(2) [simp del]
declare TrimLeftSpace.simps [simp del]
declare TrimRightSpace.simps [simp del]
declare collapseSpaces.simps [simp del]

lemma HasPrefix_Nil [simp]: "HasPrefix s []"
  by (simp add: HasPrefix_def)

lemma HasPrefix_Nil_left [simp]: "HasPrefix [] p = (p = [])"
  by (auto simp: HasPrefix_def)

lemma HasPrefix_Cons [simp]: "HasPrefix (c # s) (a # p) = (c = a \<and> HasPrefix s p)"
  by (simp add: HasPrefix_def)

lemma HasPrefix_take: "HasPrefix (take n s) p \<Longrightarrow> HasPrefix s p"
proof -
  assume "HasPrefix (take n s) p"
  then have e: "take (min (length p) n) s = p"
    by (simp add: HasPrefix_def)
  then have "length (take (min (length p) n) s) = length p"
    by (rule arg_cong)
  then have "length p \<le> n"
    by simp
  then have "min (length p) n = length p"
    by simp
  with e show ?thesis
    by (simp add: HasPrefix_def)
qed

lemma HasSuffix_iff: "HasSuffix s p = (\<exists>xs. s = xs @ p)"
proof
  assume "HasSuffix s p"
  then have "s = take (length s - length p) s @ p"
    by (metis HasSuffix_def append_take_drop_id)
  then show "\<exists>xs. s = xs @ p" ..
next
  assume "\<exists>xs. s = xs @ p"
  then show "HasSuffix s p" by (auto simp: HasSuffix_def)
qed

lemma ReplaceAll_id: "\<not> Contains s old \<Longrightarrow> ReplaceAll s old new = s"
  by (induction s) (auto simp: ReplaceAll_Cons_skip)

lemma ReplaceAll_single:
  "ReplaceAll s [a] [b] = map (\<lambda>c. if c = a then b else c) s"
  by (induction s) (auto simp: ReplaceAll.simps(2))

lemma ReplaceAll_two_spaces_Cons:
  "ReplaceAll (c # cs) ''  '' '' '' =
     (case cs of
        [] \<Rightarrow> [c]
      | d # ds \<Rightarrow> if c = CHR '' '' \<and> d = CHR '' '' then CHR '' '' # ReplaceAll ds ''  '' '' ''
                 else c # ReplaceAll (d # ds) ''  '' '' '')"
  by (cases cs) (auto simp: ReplaceAll.simps(2))

text \<open>The bytes that the white-space steps of \<^verbatim>\<open>cleanSnippet\<close> rewrite.\<close>

definition touched :: "char \<Rightarrow> bool" where
  "touched c = (c = CHR 0x20 \<or> c = CHR 0x0A \<or> c = CHR 0x09)"

text \<open>
  \<open>wsRewrite s t\<close>: \<open>t\<close> comes from \<open>s\<close> by replacing rewritten bytes by rewritten
  bytes and by deleting a rewritten byte that stands before another one. Every
  white-space step of \<^verbatim>\<open>cleanSnippet\<close> after the trim is of this kind.
\<close>

inductive wsRewrite :: "string \<Rightarrow> string \<Rightarrow> bool" where
  wsr_Nil: "wsRewrite [] []"
| wsr_keep: "\<not> touched c \<Longrightarrow> wsRewrite s t \<Longrightarrow> wsRewrite (c # s) (c # t)"
| wsr_map: "touched c \<Longrightarrow> touched d \<Longrightarrow> wsRewrite s t \<Longrightarrow> wsRewrite (c # s) (d # t)"
| wsr_drop: "touched c \<Longrightarrow> touched d \<Longrightarrow> wsRewrite s (d # t) \<Longrightarrow> wsRewrite (c # s) (d # t)"

lemma wsRewrite_map:
  "touched a \<Longrightarrow> touched b \<Longrightarrow> wsRewrite s (map (\<lambda>c. if c = a then b else c) s)"
proof (induction s)
  case Nil
  show ?case by (simp add: wsr_Nil)
next
  case (Cons c s)
  then have ih: "wsRewrite s (map (\<lambda>c. if c = a then b else c) s)" by simp
  show ?case
  proof (cases "touched c")
    case True
    with Cons.prems ih show ?thesis by (auto intro: wsr_map)
  next
    case False
    with Cons.prems have "c \<noteq> a" by auto
    with False ih show ?thesis by (auto intro: wsr_keep)
  qed
qed

lemma wsRewrite_ReplaceAll_spaces: "wsRewrite s (ReplaceAll s ''  '' '' '')"
proof (induction "length s" arbitrary: s rule: less_induct)
  case less
  show ?case
  proof (cases s)
    case Nil
    then show ?thesis by (simp add: wsr_Nil)
  next
    case (Cons c cs)
    note s = Cons
    show ?thesis
    proof (cases cs)
      case Nil
      with s show ?thesis
        by (cases "touched c") (auto simp: ReplaceAll_two_spaces_Cons intro: wsRewrite.intros)
    next
      case (Cons d ds)
      show ?thesis
      proof (cases "c = CHR '' '' \<and> d = CHR '' ''")
        case True
        have "wsRewrite ds (ReplaceAll ds ''  '' '' '')"
          using less [of ds] s Cons by simp
        then have a: "wsRewrite (CHR '' '' # ds) (CHR '' '' # ReplaceAll ds ''  '' '' '')"
          by (intro wsr_map) (simp_all add: touched_def)
        have "wsRewrite (CHR '' '' # CHR '' '' # ds) (CHR '' '' # ReplaceAll ds ''  '' '' '')"
          by (rule wsr_drop [OF _ _ a]) (simp_all add: touched_def)
        with True s Cons show ?thesis
          by (simp add: ReplaceAll_two_spaces_Cons)
      next
        case False
        have ih: "wsRewrite cs (ReplaceAll cs ''  '' '' '')"
          using less [of cs] s by simp
        have "\<not> (''  '' \<noteq> [] \<and> HasPrefix (c # cs) ''  '')"
          using False Cons by simp
        then have "ReplaceAll (c # cs) ''  '' '' '' = c # ReplaceAll cs ''  '' '' ''"
          by (rule ReplaceAll_Cons_skip)
        with s have r: "ReplaceAll s ''  '' '' '' = c # ReplaceAll cs ''  '' '' ''"
          by simp
        show ?thesis
        proof (cases "touched c")
          case True
          with ih have "wsRewrite (c # cs) (c # ReplaceAll cs ''  '' '' '')"
            by (intro wsr_map)
          with r s show ?thesis by simp
        next
          case False
          with ih have "wsRewrite (c # cs) (c # ReplaceAll cs ''  '' '' '')"
            by (intro wsr_keep)
          with r s show ?thesis by simp
        qed
      qed
    qed
  qed
qed

lemma wsRewrite_Nil_right: "wsRewrite s [] \<Longrightarrow> s = []"
  by (cases rule: wsRewrite.cases) auto

lemma wsRewrite_untouched: "wsRewrite s t \<Longrightarrow> \<forall>c\<in>set t. \<not> touched c \<Longrightarrow> s = t"
  by (induction rule: wsRewrite.induct) auto

lemma wsRewrite_prefix:
  "wsRewrite s t \<Longrightarrow> \<forall>c\<in>set p. \<not> touched c \<Longrightarrow> HasPrefix t p \<Longrightarrow> HasPrefix s p"
proof (induction arbitrary: p rule: wsRewrite.induct)
  case wsr_Nil
  then show ?case by simp
next
  case (wsr_keep c s t)
  then show ?case by (cases p) auto
next
  case (wsr_map c d s t)
  then show ?case by (cases p) auto
next
  case (wsr_drop c d s t)
  then show ?case by (cases p) auto
qed

lemma wsRewrite_suffix:
  "wsRewrite s t \<Longrightarrow> p \<noteq> [] \<Longrightarrow> \<forall>c\<in>set p. \<not> touched c \<Longrightarrow> t = xs @ p
   \<Longrightarrow> \<exists>ys. s = ys @ p"
proof (induction arbitrary: xs rule: wsRewrite.induct)
  case wsr_Nil
  then show ?case by simp
next
  case (wsr_keep c s t)
  show ?case
  proof (cases xs)
    case Nil
    with wsr_keep.prems(3) have p: "p = c # t" by simp
    from wsr_keep.prems(2) have "\<forall>c\<in>set t. \<not> touched c" unfolding p by simp
    with wsr_keep.hyps(2) have "s = t" by (rule wsRewrite_untouched)
    then have "c # s = [] @ p" unfolding p by simp
    then show ?thesis by (rule exI)
  next
    case (Cons x xs')
    with wsr_keep.prems(3) have "t = xs' @ p" by simp
    with wsr_keep.IH [OF wsr_keep.prems(1,2)] obtain ys where "s = ys @ p" by blast
    then have "c # s = (c # ys) @ p" by simp
    then show ?thesis by (rule exI)
  qed
next
  case (wsr_map c d s t)
  show ?case
  proof (cases xs)
    case Nil
    with wsr_map.prems(3) have p: "p = d # t" by simp
    from wsr_map.prems(2) have "\<not> touched d" unfolding p by simp
    with wsr_map.hyps(2) show ?thesis by simp
  next
    case (Cons x xs')
    with wsr_map.prems(3) have "t = xs' @ p" by simp
    with wsr_map.IH [OF wsr_map.prems(1,2)] obtain ys where "s = ys @ p" by blast
    then have "c # s = (c # ys) @ p" by simp
    then show ?thesis by (rule exI)
  qed
next
  case (wsr_drop c d s t)
  from wsr_drop.IH [OF wsr_drop.prems] obtain ys where "s = ys @ p" by blast
  then have "c # s = (c # ys) @ p" by simp
  then show ?case by (rule exI)
qed

lemma wsRewrite_hd_touched:
  "wsRewrite s (d # t) \<Longrightarrow> touched d \<Longrightarrow> \<exists>c s'. s = c # s' \<and> touched c"
  by (cases rule: wsRewrite.cases) auto

lemma wsRewrite_last_touched:
  "wsRewrite s t \<Longrightarrow> t = xs @ [d] \<Longrightarrow> touched d \<Longrightarrow> \<exists>ys c. s = ys @ [c] \<and> touched c"
proof (induction arbitrary: xs rule: wsRewrite.induct)
  case wsr_Nil
  then show ?case by simp
next
  case (wsr_keep c s t)
  show ?case
  proof (cases xs)
    case Nil
    with wsr_keep.prems(1) have "c = d" by simp
    with wsr_keep.prems(2) wsr_keep.hyps(1) show ?thesis by simp
  next
    case (Cons x xs')
    with wsr_keep.prems(1) have "t = xs' @ [d]" by simp
    from wsr_keep.IH [OF this wsr_keep.prems(2)]
    obtain ys e where "s = ys @ [e]" "touched e" by blast
    then have "c # s = (c # ys) @ [e] \<and> touched e" by simp
    then show ?thesis by blast
  qed
next
  case (wsr_map c d' s t)
  show ?case
  proof (cases xs)
    case Nil
    with wsr_map.prems(1) have "t = []" by simp
    with wsr_map.hyps(3) have "s = []" by (simp add: wsRewrite_Nil_right)
    with wsr_map.hyps(1) have "c # s = [] @ [c] \<and> touched c" by simp
    then show ?thesis by blast
  next
    case (Cons x xs')
    with wsr_map.prems(1) have "t = xs' @ [d]" by simp
    from wsr_map.IH [OF this wsr_map.prems(2)]
    obtain ys e where "s = ys @ [e]" "touched e" by blast
    then have "c # s = (c # ys) @ [e] \<and> touched e" by simp
    then show ?thesis by blast
  qed
next
  case (wsr_drop c d' s t)
  from wsr_drop.IH [OF wsr_drop.prems]
  obtain ys e where "s = ys @ [e]" "touched e" by blast
  then have "c # s = (c # ys) @ [e] \<and> touched e" by simp
  then show ?case by blast
qed

subsection \<open>Trimmed strings\<close>

definition trimmed :: "string \<Rightarrow> bool" where
  "trimmed s = (find (HasPrefix s) spaceRunes = None \<and> find (HasSuffix s) spaceRunes = None)"

lemma spaceRunes_classes:
  "list_all (\<lambda>p. (case p of [d] \<Rightarrow> touched d | _ \<Rightarrow> False)
                 \<or> (p \<noteq> [] \<and> list_all (\<lambda>c. \<not> touched c) p)) spaceRunes"
  by code_simp

lemma spaceRunes_cases:
  assumes "p \<in> set spaceRunes"
  shows "(\<exists>d. touched d \<and> p = [d]) \<or> (p \<noteq> [] \<and> (\<forall>c\<in>set p. \<not> touched c))"
proof -
  from spaceRunes_classes assms
  have "(case p of [d] \<Rightarrow> touched d | _ \<Rightarrow> False) \<or> (p \<noteq> [] \<and> list_all (\<lambda>c. \<not> touched c) p)"
    unfolding list_all_iff by blast
  then show ?thesis
    by (auto simp: list_all_iff split: list.splits)
qed

lemma touched_spaceRunes: "touched d \<Longrightarrow> [d] \<in> set spaceRunes"
  unfolding touched_def spaceRunes_def by (elim disjE) simp_all

lemma trimmed_iff:
  "trimmed s = (\<forall>p\<in>set spaceRunes. \<not> HasPrefix s p \<and> \<not> HasSuffix s p)"
  by (auto simp: trimmed_def find_None_iff)

lemma wsRewrite_trimmed:
  assumes r: "wsRewrite s t" and tr: "trimmed s"
  shows "trimmed t"
proof -
  have "\<not> HasPrefix t p \<and> \<not> HasSuffix t p" if p: "p \<in> set spaceRunes" for p
  proof -
    from tr p have np: "\<not> HasPrefix s p" and ns: "\<not> HasSuffix s p"
      by (simp_all add: trimmed_iff)
    from spaceRunes_cases [OF p] show ?thesis
    proof
      assume "\<exists>d. touched d \<and> p = [d]"
      then obtain d where d: "touched d" and pd: "p = [d]" by blast
      have "\<not> HasPrefix t [d]"
      proof
        assume "HasPrefix t [d]"
        then obtain t' where "t = d # t'" by (cases t) auto
        with r d obtain c s' where "s = c # s'" and c: "touched c"
          using wsRewrite_hd_touched by blast
        then have "HasPrefix s [c]" by simp
        moreover from c have "[c] \<in> set spaceRunes" by (rule touched_spaceRunes)
        ultimately show False using tr by (auto simp: trimmed_iff)
      qed
      moreover have "\<not> HasSuffix t [d]"
      proof
        assume "HasSuffix t [d]"
        then obtain xs where "t = xs @ [d]" by (auto simp: HasSuffix_iff)
        from wsRewrite_last_touched [OF r this d]
        obtain ys c where "s = ys @ [c]" and c: "touched c" by blast
        then have "HasSuffix s [c]" by (auto simp: HasSuffix_iff)
        moreover from c have "[c] \<in> set spaceRunes" by (rule touched_spaceRunes)
        ultimately show False using tr by (auto simp: trimmed_iff)
      qed
      ultimately show ?thesis using pd by simp
    next
      assume u: "p \<noteq> [] \<and> (\<forall>c\<in>set p. \<not> touched c)"
      have "\<not> HasPrefix t p"
        using wsRewrite_prefix [OF r] u np by blast
      moreover have "\<not> HasSuffix t p"
      proof
        assume "HasSuffix t p"
        then obtain xs where "t = xs @ p" by (auto simp: HasSuffix_iff)
        with wsRewrite_suffix [OF r] u have "\<exists>ys. s = ys @ p" by blast
        with ns show False by (simp add: HasSuffix_iff)
      qed
      ultimately show ?thesis by simp
    qed
  qed
  then show ?thesis by (simp add: trimmed_iff)
qed

lemma TrimLeftSpace_no_prefix: "find (HasPrefix (TrimLeftSpace s)) spaceRunes = None"
proof (induction s rule: TrimLeftSpace.induct)
  case (1 s)
  show ?case
  proof (cases "find (HasPrefix s) spaceRunes")
    case None
    then have "TrimLeftSpace s = s" by (subst TrimLeftSpace.simps) simp
    with None show ?thesis by simp
  next
    case (Some p)
    then have "TrimLeftSpace s = TrimLeftSpace (drop (length p) s)"
      by (subst TrimLeftSpace.simps) simp
    with 1 [OF Some] show ?thesis by simp
  qed
qed

lemma TrimRightSpace_no_suffix: "find (HasSuffix (TrimRightSpace s)) spaceRunes = None"
proof (induction s rule: TrimRightSpace.induct)
  case (1 s)
  show ?case
  proof (cases "find (HasSuffix s) spaceRunes")
    case None
    then have "TrimRightSpace s = s" by (subst TrimRightSpace.simps) simp
    with None show ?thesis by simp
  next
    case (Some p)
    then have "TrimRightSpace s = TrimRightSpace (take (length s - length p) s)"
      by (subst TrimRightSpace.simps) simp
    with 1 [OF Some] show ?thesis by simp
  qed
qed

lemma TrimRightSpace_keeps_no_prefix:
  "find (HasPrefix s) spaceRunes = None \<Longrightarrow> find (HasPrefix (TrimRightSpace s)) spaceRunes = None"
proof (induction s rule: TrimRightSpace.induct)
  case (1 s)
  show ?case
  proof (cases "find (HasSuffix s) spaceRunes")
    case None
    then have "TrimRightSpace s = s" by (subst TrimRightSpace.simps) simp
    with "1.prems" show ?thesis by simp
  next
    case (Some p)
    then have e: "TrimRightSpace s = TrimRightSpace (take (length s - length p) s)"
      by (subst TrimRightSpace.simps) simp
    from "1.prems" have "find (HasPrefix (take (length s - length p) s)) spaceRunes = None"
      by (auto simp: find_None_iff dest: HasPrefix_take)
    from "1.IH" [OF Some this] e show ?thesis by simp
  qed
qed

lemma trimmed_TrimSpace: "trimmed (TrimSpace s)"
  unfolding trimmed_def TrimSpace_def
  by (simp add: TrimRightSpace_no_suffix TrimRightSpace_keeps_no_prefix TrimLeftSpace_no_prefix)

lemma TrimSpace_trimmed: "trimmed s \<Longrightarrow> TrimSpace s = s"
proof -
  assume t: "trimmed s"
  then have "TrimLeftSpace s = s"
    by (subst TrimLeftSpace.simps) (simp add: trimmed_def)
  moreover from t have "TrimRightSpace s = s"
    by (subst TrimRightSpace.simps) (simp add: trimmed_def)
  ultimately show ?thesis by (simp add: TrimSpace_def)
qed

text \<open>The loop keeps what every round keeps, and ends without a double space.\<close>

lemma collapseSpaces_trimmed: "trimmed s \<Longrightarrow> trimmed (collapseSpaces s)"
proof (induction s rule: collapseSpaces.induct)
  case (1 s)
  show ?case
  proof (cases "Contains s ''  ''")
    case True
    then have e: "collapseSpaces s = collapseSpaces (ReplaceAll s ''  '' '' '')"
      by (subst collapseSpaces.simps) simp
    from "1.prems" have "trimmed (ReplaceAll s ''  '' '' '')"
      using wsRewrite_ReplaceAll_spaces by (rule wsRewrite_trimmed [rotated])
    from "1.IH" [OF True this] e show ?thesis by simp
  next
    case False
    then have "collapseSpaces s = s" by (subst collapseSpaces.simps) simp
    with "1.prems" show ?thesis by simp
  qed
qed

lemma collapseSpaces_no_double: "\<not> Contains (collapseSpaces s) ''  ''"
proof (induction s rule: collapseSpaces.induct)
  case (1 s)
  show ?case
  proof (cases "Contains s ''  ''")
    case True
    then have "collapseSpaces s = collapseSpaces (ReplaceAll s ''  '' '' '')"
      by (subst collapseSpaces.simps) simp
    with "1.IH" [OF True] show ?thesis by simp
  next
    case False
    then have "collapseSpaces s = s" by (subst collapseSpaces.simps) simp
    with False show ?thesis by simp
  qed
qed

lemma set_ReplaceAll: "set (ReplaceAll s old new) \<subseteq> set s \<union> set new"
proof (induction s old new rule: ReplaceAll.induct)
  case (1 old new)
  show ?case by simp
next
  case (2 c cs old new)
  show ?case
  proof (cases "old \<noteq> [] \<and> HasPrefix (c # cs) old")
    case True
    then have "ReplaceAll (c # cs) old new = new @ ReplaceAll (drop (length old) (c # cs)) old new"
      by (rule ReplaceAll_Cons_match)
    moreover from 2(1) [OF True]
    have "set (ReplaceAll (drop (length old) (c # cs)) old new) \<subseteq> set (c # cs) \<union> set new"
      using set_drop_subset [of "length old" "c # cs"] by blast
    ultimately show ?thesis by auto
  next
    case False
    then have "ReplaceAll (c # cs) old new = c # ReplaceAll cs old new"
      by (rule ReplaceAll_Cons_skip)
    with 2(2) [OF False] show ?thesis by auto
  qed
qed

lemma set_collapseSpaces: "set (collapseSpaces s) \<subseteq> set s"
proof (induction s rule: collapseSpaces.induct)
  case (1 s)
  show ?case
  proof (cases "Contains s ''  ''")
    case True
    then have e: "collapseSpaces s = collapseSpaces (ReplaceAll s ''  '' '' '')"
      by (subst collapseSpaces.simps) simp
    from True have "s \<noteq> []" by auto
    then obtain c cs where s: "s = c # cs" by (cases s) auto
    from True have "CHR '' '' \<in> set s"
      by (induction s) auto
    with set_ReplaceAll [of s "''  ''" "'' ''"] have "set (ReplaceAll s ''  '' '' '') \<subseteq> set s"
      by auto
    with "1.IH" [OF True] e show ?thesis by auto
  next
    case False
    then have "collapseSpaces s = s" by (subst collapseSpaces.simps) simp
    then show ?thesis by simp
  qed
qed

lemma not_Contains_single: "a \<notin> set s \<Longrightarrow> \<not> Contains s [a]"
  by (induction s) auto

subsection \<open>Cleaning twice\<close>

text \<open>
  \<^verbatim>\<open>cleanSnippet\<close> in two phases: the six replacements of markup (the table below, in
  the order of the source), then the white-space steps.
\<close>

definition markupTable :: "(string \<times> string) list" where
  "markupTable =
     [(spanOpen, ''''), (''</span>'', ''''), (''&quot;'', [CHR 0x22]),
      (''&amp;'', ''&''), (''&lt;'', ''<''), (''&gt;'', ''>'')]"

definition markupStrings :: "string list" where
  "markupStrings = [spanOpen, ''</span>'', ''&quot;'', ''&amp;'', ''&lt;'', ''&gt;'']"

definition replaceEach :: "(string \<times> string) list \<Rightarrow> string \<Rightarrow> string" where
  "replaceEach tbl s = fold (\<lambda>(old, new) cleaned. ReplaceAll cleaned old new) tbl s"

definition normalizeSpace :: "string \<Rightarrow> string" where
  "normalizeSpace s =
     collapseSpaces (ReplaceAll (ReplaceAll (TrimSpace s) [CHR 0x0A] '' '') [CHR 0x09] '' '')"

lemma cleanSnippet_phases: "cleanSnippet s = normalizeSpace (replaceEach markupTable s)"
  by (simp add: cleanSnippet_def normalizeSpace_def replaceEach_def markupTable_def Let_def)

lemma markupStrings_table: "markupStrings = map fst markupTable"
  by (simp add: markupStrings_def markupTable_def)

lemma markupTable_shorter: "(old, new) \<in> set markupTable \<Longrightarrow> length new < length old"
  by (auto simp: markupTable_def spanOpen_def)

lemma replaceEach_Nil [simp]: "replaceEach [] s = s"
  by (simp add: replaceEach_def)

lemma replaceEach_Cons [simp]:
  "replaceEach ((old, new) # tbl) s = replaceEach tbl (ReplaceAll s old new)"
  by (simp add: replaceEach_def)

lemma replaceEach_length_le:
  "\<forall>(old, new)\<in>set tbl. length new < length old \<Longrightarrow> length (replaceEach tbl s) \<le> length s"
proof (induction tbl arbitrary: s)
  case Nil
  show ?case by simp
next
  case (Cons e tbl)
  obtain old new where e: "e = (old, new)" by (cases e)
  with Cons.prems have "length new \<le> length old" by simp
  then have "length (ReplaceAll s old new) \<le> length s" by (rule ReplaceAll_length_le)
  moreover from Cons have "length (replaceEach tbl (ReplaceAll s old new)) \<le> length (ReplaceAll s old new)"
    by simp
  ultimately show ?case using e by simp
qed

lemma replaceEach_id:
  "\<forall>old\<in>set (map fst tbl). \<not> Contains s old \<Longrightarrow> replaceEach tbl s = s"
proof (induction tbl)
  case Nil
  show ?case by simp
next
  case (Cons e tbl)
  obtain old new where e: "e = (old, new)" by (cases e)
  with Cons.prems have "ReplaceAll s old new = s" by (simp add: ReplaceAll_id)
  with Cons e show ?case by simp
qed

lemma replaceEach_length_less:
  "\<forall>(old, new)\<in>set tbl. length new < length old \<Longrightarrow>
   \<exists>old\<in>set (map fst tbl). Contains s old \<Longrightarrow> length (replaceEach tbl s) < length s"
proof (induction tbl)
  case Nil
  then show ?case by simp
next
  case (Cons e tbl)
  obtain old new where e: "e = (old, new)" by (cases e)
  from Cons.prems(1) e have sh: "length new < length old"
    and rest: "\<forall>(old, new)\<in>set tbl. length new < length old" by simp_all
  show ?case
  proof (cases "Contains s old")
    case True
    then have "length (ReplaceAll s old new) < length s"
      using sh by (rule ReplaceAll_length_less)
    moreover have "length (replaceEach tbl (ReplaceAll s old new)) \<le> length (ReplaceAll s old new)"
      using rest by (rule replaceEach_length_le)
    ultimately show ?thesis using e by simp
  next
    case False
    then have "ReplaceAll s old new = s" by (rule ReplaceAll_id)
    moreover from False Cons.prems(2) e have "\<exists>old\<in>set (map fst tbl). Contains s old" by simp
    ultimately show ?thesis using Cons.IH [OF rest] e by simp
  qed
qed

lemma TrimLeftSpace_length: "length (TrimLeftSpace s) \<le> length s"
proof (induction s rule: TrimLeftSpace.induct)
  case (1 s)
  show ?case
  proof (cases "find (HasPrefix s) spaceRunes")
    case None
    then have "TrimLeftSpace s = s" by (subst TrimLeftSpace.simps) simp
    then show ?thesis by simp
  next
    case (Some p)
    then have "TrimLeftSpace s = TrimLeftSpace (drop (length p) s)"
      by (subst TrimLeftSpace.simps) simp
    with 1 [OF Some] show ?thesis by simp
  qed
qed

lemma TrimRightSpace_length: "length (TrimRightSpace s) \<le> length s"
proof (induction s rule: TrimRightSpace.induct)
  case (1 s)
  show ?case
  proof (cases "find (HasSuffix s) spaceRunes")
    case None
    then have "TrimRightSpace s = s" by (subst TrimRightSpace.simps) simp
    then show ?thesis by simp
  next
    case (Some p)
    then have "TrimRightSpace s = TrimRightSpace (take (length s - length p) s)"
      by (subst TrimRightSpace.simps) simp
    with 1 [OF Some] show ?thesis by simp
  qed
qed

lemma collapseSpaces_length: "length (collapseSpaces s) \<le> length s"
proof (induction s rule: collapseSpaces.induct)
  case (1 s)
  show ?case
  proof (cases "Contains s ''  ''")
    case True
    then have "collapseSpaces s = collapseSpaces (ReplaceAll s ''  '' '' '')"
      by (subst collapseSpaces.simps) simp
    moreover have "length (ReplaceAll s ''  '' '' '') \<le> length s"
      by (rule ReplaceAll_length_le) simp
    ultimately show ?thesis using 1 [OF True] by simp
  next
    case False
    then have "collapseSpaces s = s" by (subst collapseSpaces.simps) simp
    then show ?thesis by simp
  qed
qed

lemma normalizeSpace_length: "length (normalizeSpace s) \<le> length s"
proof -
  have "length (normalizeSpace s) \<le> length (TrimSpace s)"
    unfolding normalizeSpace_def ReplaceAll_single
    using collapseSpaces_length [of "map (\<lambda>c. if c = CHR 0x09 then CHR '' '' else c)
        (map (\<lambda>c. if c = CHR 0x0A then CHR '' '' else c) (TrimSpace s))"]
    by simp
  also have "\<dots> \<le> length (TrimLeftSpace s)"
    unfolding TrimSpace_def by (rule TrimRightSpace_length)
  also have "\<dots> \<le> length s" by (rule TrimLeftSpace_length)
  finally show ?thesis .
qed

text \<open>What the white-space steps produce, they leave as it is.\<close>

lemma normalizeSpace_fixed: "normalizeSpace (normalizeSpace s) = normalizeSpace s"
proof -
  define f1 where "f1 = (\<lambda>c. if c = CHR 0x0A then CHR '' '' else c)"
  define f2 where "f2 = (\<lambda>c. if c = CHR 0x09 then CHR '' '' else c)"
  define u where "u = map f2 (map f1 (TrimSpace s))"
  define t where "t = collapseSpaces u"
  have t: "normalizeSpace s = t"
    by (simp add: normalizeSpace_def ReplaceAll_single t_def u_def f1_def f2_def)
  have t1: "trimmed (map f1 (TrimSpace s))"
    unfolding f1_def
    by (rule wsRewrite_trimmed [OF wsRewrite_map trimmed_TrimSpace]) (simp_all add: touched_def)
  have "trimmed u"
    unfolding u_def f2_def
    by (rule wsRewrite_trimmed [OF wsRewrite_map t1]) (simp_all add: touched_def)
  then have tr: "trimmed t"
    unfolding t_def by (rule collapseSpaces_trimmed)
  have "CHR 0x0A \<notin> set u" "CHR 0x09 \<notin> set u"
    by (auto simp: u_def f1_def f2_def)
  with set_collapseSpaces [of u] have nl: "CHR 0x0A \<notin> set t" and tab: "CHR 0x09 \<notin> set t"
    unfolding t_def by auto
  have nd: "\<not> Contains t ''  ''"
    unfolding t_def by (rule collapseSpaces_no_double)
  have "normalizeSpace t = collapseSpaces (ReplaceAll (ReplaceAll t [CHR 0x0A] '' '') [CHR 0x09] '' '')"
    by (simp add: normalizeSpace_def TrimSpace_trimmed [OF tr])
  also have "ReplaceAll t [CHR 0x0A] '' '' = t"
    using nl by (intro ReplaceAll_id not_Contains_single)
  also have "ReplaceAll t [CHR 0x09] '' '' = t"
    using tab by (intro ReplaceAll_id not_Contains_single)
  also have "collapseSpaces t = t"
    using nd by (subst collapseSpaces.simps) simp
  finally show ?thesis by (simp add: t)
qed

text \<open>
  Claim C2, as amended. Cleaning a cleaned snippet again changes nothing exactly when the
  cleaned snippet contains none of the six strings that cleaning replaces (the two
  wrapper tags and the four entities). The white-space steps alone are idempotent
  (\<open>normalizeSpace_fixed\<close>); the replacements are not, since a replacement can
  produce a string that a later pass replaces again.
\<close>

theorem cleanSnippet_twice:
  "cleanSnippet (cleanSnippet s) = cleanSnippet s
     \<longleftrightarrow> list_all (\<lambda>old. \<not> Contains (cleanSnippet s) old) markupStrings"
proof
  assume fixed: "cleanSnippet (cleanSnippet s) = cleanSnippet s"
  show "list_all (\<lambda>old. \<not> Contains (cleanSnippet s) old) markupStrings"
  proof (rule ccontr)
    assume "\<not> list_all (\<lambda>old. \<not> Contains (cleanSnippet s) old) markupStrings"
    then have "\<exists>old\<in>set (map fst markupTable). Contains (cleanSnippet s) old"
      by (simp add: list_all_iff markupStrings_table)
    with replaceEach_length_less [of markupTable "cleanSnippet s"]
    have "length (replaceEach markupTable (cleanSnippet s)) < length (cleanSnippet s)"
      using markupTable_shorter by blast
    moreover have "length (cleanSnippet (cleanSnippet s))
        \<le> length (replaceEach markupTable (cleanSnippet s))"
      unfolding cleanSnippet_phases [of "cleanSnippet s"] by (rule normalizeSpace_length)
    ultimately show False using fixed by simp
  qed
next
  assume "list_all (\<lambda>old. \<not> Contains (cleanSnippet s) old) markupStrings"
  then have "\<forall>old\<in>set (map fst markupTable). \<not> Contains (cleanSnippet s) old"
    by (simp add: list_all_iff markupStrings_table)
  then have "replaceEach markupTable (cleanSnippet s) = cleanSnippet s"
    by (rule replaceEach_id)
  then have "cleanSnippet (cleanSnippet s) = normalizeSpace (cleanSnippet s)"
    by (simp add: cleanSnippet_phases [of "cleanSnippet s"])
  also have "\<dots> = cleanSnippet s"
    unfolding cleanSnippet_phases [of s] by (rule normalizeSpace_fixed)
  finally show "cleanSnippet (cleanSnippet s) = cleanSnippet s" .
qed

text \<open>An input with markup and white space whose cleaned form is free of markup.\<close>

theorem cleanSnippet_twice_witness:
  "cleanSnippet (cleanSnippet (''  a &amp;  b '' @ [CHR 0x0A])) = ''a & b''"
proof -
  have "list_all (\<lambda>old. \<not> Contains (cleanSnippet (''  a &amp;  b '' @ [CHR 0x0A])) old) markupStrings"
    by code_simp
  then have "cleanSnippet (cleanSnippet (''  a &amp;  b '' @ [CHR 0x0A]))
      = cleanSnippet (''  a &amp;  b '' @ [CHR 0x0A])"
    using cleanSnippet_twice [of "''  a &amp;  b '' @ [CHR 0x0A]"] by blast
  also have "\<dots> = ''a & b''" by code_simp
  finally show ?thesis .
qed

text \<open>
  Claim C2 as stated fails: the first pass turns \<^verbatim>\<open>&amp;amp;\<close> into
  \<^verbatim>\<open>&amp;\<close>, the second pass turns that into \<^verbatim>\<open>&\<close>.
\<close>

theorem cleanSnippet_idempotent_counterexample:
  "cleanSnippet (cleanSnippet ''&amp;amp;'') \<noteq> cleanSnippet ''&amp;amp;''"
  by code_simp

section \<open>URL escaping\<close>

text \<open>
  Package \<^verbatim>\<open>net/url\<close>: \<^verbatim>\<open>QueryEscape\<close> is \<^verbatim>\<open>escape(s, encodeQueryComponent)\<close>
  and \<^verbatim>\<open>PathEscape\<close> is \<^verbatim>\<open>escape(s, encodePathSegment)\<close>. Of the library's
  encoding modes only these two are reachable from the program and its tests.
\<close>

datatype encoding = encodePathSegment | encodeQueryComponent

definition isAlnum :: "char \<Rightarrow> bool" where
  "isAlnum c =
     (let n = (of_char c :: nat)
      in (97 \<le> n \<and> n \<le> 122) \<or> (65 \<le> n \<and> n \<le> 90) \<or> (48 \<le> n \<and> n \<le> 57))"

definition shouldEscape :: "char \<Rightarrow> encoding \<Rightarrow> bool" where
  "shouldEscape c mode =
     (if isAlnum c then False
      else if c \<in> set ''-_.~'' then False
      else if c \<in> set ''$&+,/:;=?@'' then
        (case mode of
           encodePathSegment \<Rightarrow> c = CHR ''/'' \<or> c = CHR '';'' \<or> c = CHR '','' \<or> c = CHR ''?''
         | encodeQueryComponent \<Rightarrow> True)
      else True)"

definition upperhex :: string where
  "upperhex = ''0123456789ABCDEF''"

definition escapeByte :: "char \<Rightarrow> encoding \<Rightarrow> string" where
  "escapeByte c mode =
     (if shouldEscape c mode then
        (if c = CHR '' '' \<and> mode = encodeQueryComponent then ''+''
         else [CHR ''%'', upperhex ! ((of_char c :: nat) div 16), upperhex ! ((of_char c :: nat) mod 16)])
      else [c])"

definition escape :: "string \<Rightarrow> encoding \<Rightarrow> string" where
  "escape s mode = concat (map (\<lambda>c. escapeByte c mode) s)"

definition QueryEscape :: "string \<Rightarrow> string" where
  "QueryEscape s = escape s encodeQueryComponent"

definition PathEscape :: "string \<Rightarrow> string" where
  "PathEscape s = escape s encodePathSegment"

section \<open>The cache manager\<close>

text \<open>
  \<^verbatim>\<open>Manager\<close> wraps one \<^verbatim>\<open>*cache.Cache\<close> of
  \<^verbatim>\<open>github.com/patrickmn/go-cache v2.1.0\<close> (the version \<^verbatim>\<open>go.mod\<close> pins) and
  delegates to it. The store is written out after that library's \<^verbatim>\<open>Set\<close>,
  \<^verbatim>\<open>Get\<close> and \<^verbatim>\<open>DeleteExpired\<close>: an item holds its value and an absolute expiry
  in Unix nanoseconds, where an expiry that is not positive means that the item never
  expires, and the duration 0 (\<^verbatim>\<open>DefaultExpiration\<close>) selects the default the cache
  was built with. Times and durations are \<^verbatim>\<open>int64\<close> nanoseconds; \<open>int64\<close> is the
  wrap-around of \<^verbatim>\<open>time.Now().Add(d).UnixNano()\<close>. The clock reading is an
  argument of every operation that reads it.
\<close>

datatype val = VString string | VOther nat

record Item =
  Object :: val
  Expiration :: int

record Cache =
  defaultExpiration :: int
  items :: "string \<rightharpoonup> Item"

definition Nanosecond :: int where "Nanosecond = 1"
definition Second :: int where "Second = 1000000000 * Nanosecond"
definition Minute :: int where "Minute = 60 * Second"
definition Hour :: int where "Hour = 60 * Minute"

definition NoExpiration :: int where "NoExpiration = - 1"
definition DefaultExpiration :: int where "DefaultExpiration = 0"

definition StaticDataTTL :: int where "StaticDataTTL = 24 * Hour * 365"
definition WikiDataTTL :: int where "WikiDataTTL = 24 * Hour"
definition WalletDataTTL :: int where "WalletDataTTL = 5 * Minute"
definition CleanupInterval :: int where "CleanupInterval = 10 * Minute"

definition int64 :: "int \<Rightarrow> int" where
  "int64 x = sint (word_of_int x :: 64 word)"

definition cache_New :: "int \<Rightarrow> int \<Rightarrow> Cache" where
  "cache_New de ci = \<lparr>defaultExpiration = (if de = 0 then - 1 else de), items = Map.empty\<rparr>"

definition cache_Set :: "int \<Rightarrow> Cache \<Rightarrow> string \<Rightarrow> val \<Rightarrow> int \<Rightarrow> Cache" where
  "cache_Set now c k x d =
     (let d = (if d = DefaultExpiration then defaultExpiration c else d);
          e = (if d > 0 then int64 (now + d) else 0)
      in c\<lparr>items := (items c)(k \<mapsto> \<lparr>Object = x, Expiration = e\<rparr>)\<rparr>)"

definition cache_Get :: "int \<Rightarrow> Cache \<Rightarrow> string \<Rightarrow> val option" where
  "cache_Get now c k =
     (case items c k of
        None \<Rightarrow> None
      | Some item \<Rightarrow>
          if Expiration item > 0 \<and> now > Expiration item then None
          else Some (Object item))"

text \<open>The janitor's sweep, run every \<^verbatim>\<open>CleanupInterval\<close>.\<close>

definition cache_DeleteExpired :: "int \<Rightarrow> Cache \<Rightarrow> Cache" where
  "cache_DeleteExpired now c =
     c\<lparr>items := (\<lambda>k. case items c k of
                        None \<Rightarrow> None
                      | Some v \<Rightarrow> if Expiration v > 0 \<and> now > Expiration v then None else Some v)\<rparr>"

definition NewManager :: Cache where
  "NewManager = cache_New StaticDataTTL CleanupInterval"

definition Manager_Set :: "int \<Rightarrow> Cache \<Rightarrow> string \<Rightarrow> val \<Rightarrow> int \<Rightarrow> Cache" where
  "Manager_Set now m key value ttl = cache_Set now m key value ttl"

definition Manager_Get :: "int \<Rightarrow> Cache \<Rightarrow> string \<Rightarrow> val option" where
  "Manager_Get now m key = cache_Get now m key"

definition Manager_GetString :: "int \<Rightarrow> Cache \<Rightarrow> string \<Rightarrow> string option" where
  "Manager_GetString now m key =
     (case cache_Get now m key of
        Some (VString str) \<Rightarrow> Some str
      | _ \<Rightarrow> None)"

text \<open>
  \<^verbatim>\<open>GetJSON\<close> and \<^verbatim>\<open>SetJSON\<close> take the codec of package
  \<^verbatim>\<open>encoding/json\<close> for the destination's type as an argument. \<^verbatim>\<open>GetJSON\<close>
  returning \<^verbatim>\<open>true\<close> with the destination filled is \<open>Some\<close> of the decoded value;
  \<open>None\<close> is \<^verbatim>\<open>false\<close>.
\<close>

definition Manager_GetJSON :: "(string \<Rightarrow> 'a option) \<Rightarrow> int \<Rightarrow> Cache \<Rightarrow> string \<Rightarrow> 'a option" where
  "Manager_GetJSON unmarshal now m key =
     (case cache_Get now m key of
        Some (VString jsonStr) \<Rightarrow> unmarshal jsonStr
      | _ \<Rightarrow> None)"

datatype error =
    DoError string
  | SearchStatusError nat string
  | SearchDecodeError
  | ExtractStatusError nat
  | ExtractDecodeError
  | MarshalError
  | SearchFailed error

definition Manager_SetJSON ::
    "('a \<Rightarrow> string option) \<Rightarrow> int \<Rightarrow> Cache \<Rightarrow> string \<Rightarrow> 'a \<Rightarrow> int \<Rightarrow> error option \<times> Cache" where
  "Manager_SetJSON marshal now m key value ttl =
     (case marshal value of
        None \<Rightarrow> (Some MarshalError, m)
      | Some jsonData \<Rightarrow> (None, cache_Set now m key (VString jsonData) ttl))"

definition GetWikiSearchKey :: "string \<Rightarrow> string" where
  "GetWikiSearchKey query = ''wiki:search:'' @ query"

definition GetWikiPageKey :: "string \<Rightarrow> string" where
  "GetWikiPageKey title = ''wiki:page:'' @ title"

lemma int64_id: "- (2 ^ 63) \<le> x \<Longrightarrow> x < 2 ^ 63 \<Longrightarrow> int64 x = x"
  unfolding int64_def by (simp add: sint_sbintrunc' signed_take_bit_int_eq_self)

lemma StaticDataTTL_val: "StaticDataTTL = 31536000000000000"
  by (simp add: StaticDataTTL_def Hour_def Minute_def Second_def Nanosecond_def)

lemma NewManager_default: "defaultExpiration NewManager = StaticDataTTL"
  by (simp add: NewManager_def cache_New_def StaticDataTTL_val)

definition effectiveTTL :: "int \<Rightarrow> int" where
  "effectiveTTL d = (if d = 0 then StaticDataTTL else d)"

text \<open>
  Claim C7, as amended. For a manager built by \<^verbatim>\<open>NewManager\<close>, a duration
  \<open>d \<ge> 0\<close> and a clock that reads a time after the epoch with the expiry inside the
  \<^verbatim>\<open>int64\<close> range: after \<^verbatim>\<open>Set(key, v, d)\<close> at time \<open>t0\<close>, a \<^verbatim>\<open>Get(key)\<close> at
  time \<open>t\<close> finds \<open>v\<close> exactly while \<open>t \<le> t0 + effectiveTTL d\<close>, where the effective
  duration is \<open>d\<close> itself for \<open>d > 0\<close> and the default of one year for \<open>d = 0\<close>. The
  lookup checks the expiry itself: a sweep at any earlier time \<open>t'\<close> makes no
  difference to its answer.
\<close>

theorem Set_then_Get:
  assumes "defaultExpiration m = StaticDataTTL"
    and "0 \<le> d" and "0 \<le> t0" and "t0 + effectiveTTL d < 2 ^ 63"
  shows "Manager_Get t (Manager_Set t0 m key v d) key
           = (if t \<le> t0 + effectiveTTL d then Some v else None)
       \<and> (t' \<le> t \<longrightarrow>
            Manager_Get t (cache_DeleteExpired t' (Manager_Set t0 m key v d)) key
              = Manager_Get t (Manager_Set t0 m key v d) key)"
proof -
  have pos: "0 < effectiveTTL d"
    using assms(2) by (simp add: effectiveTTL_def StaticDataTTL_val)
  with assms have e: "int64 (t0 + effectiveTTL d) = t0 + effectiveTTL d"
    by (intro int64_id) simp_all
  have s: "items (Manager_Set t0 m key v d) key
      = Some \<lparr>Object = v, Expiration = t0 + effectiveTTL d\<rparr>"
  proof (cases "d = 0")
    case True
    with assms(1) pos e show ?thesis
      by (simp add: Manager_Set_def cache_Set_def DefaultExpiration_def effectiveTTL_def Let_def)
  next
    case False
    with pos e show ?thesis
      by (simp add: Manager_Set_def cache_Set_def DefaultExpiration_def effectiveTTL_def Let_def)
  qed
  from pos assms(3) have "0 < t0 + effectiveTTL d" by simp
  with s show ?thesis
    by (auto simp: Manager_Get_def cache_Get_def cache_DeleteExpired_def)
qed

text \<open>A day-long entry stored at time 100: found at the last instant, gone one later.\<close>

theorem Set_then_Get_witness:
  "Manager_Get 86400000000100 (Manager_Set 100 NewManager ''k'' (VString ''v'') WikiDataTTL) ''k''
     = Some (VString ''v'')
   \<and> Manager_Get 86400000000101 (Manager_Set 100 NewManager ''k'' (VString ''v'') WikiDataTTL) ''k''
     = None
   \<and> Manager_Get 86400000000101
        (cache_DeleteExpired 50 (Manager_Set 100 NewManager ''k'' (VString ''v'') WikiDataTTL)) ''k''
     = None"
proof -
  have w: "WikiDataTTL = 86400000000000"
    by (simp add: WikiDataTTL_def Hour_def Minute_def Second_def Nanosecond_def)
  have h: "(0::int) \<le> WikiDataTTL" "(0::int) \<le> 100" "100 + effectiveTTL WikiDataTTL < 2 ^ 63"
    by (simp_all add: w effectiveTTL_def)
  have eff: "100 + effectiveTTL WikiDataTTL = 86400000000100"
    by (simp add: w effectiveTTL_def)
  show ?thesis
    using Set_then_Get [OF NewManager_default h, of 86400000000100 "''k''" "VString ''v''" 0]
      Set_then_Get [OF NewManager_default h, of 86400000000101 "''k''" "VString ''v''" 50]
    by (simp add: eff)
qed

text \<open>
  Claim C7 as stated fails at \<open>d = 0\<close>: the entry stored at time 100 with duration 0
  is still found at time 101, because 0 selects the default expiration.
\<close>

theorem Set_zero_duration_counterexample:
  "Manager_Get 101 (Manager_Set 100 NewManager ''k'' (VString ''v'') 0) ''k'' = Some (VString ''v'')
   \<and> (101::int) > 100 + 0"
  by (simp add: Manager_Get_def Manager_Set_def cache_Get_def cache_Set_def NewManager_def
      cache_New_def DefaultExpiration_def StaticDataTTL_val int64_def)

text \<open>
  Claim C8. \<^verbatim>\<open>GetJSON\<close> answers \<^verbatim>\<open>false\<close> exactly when the key is absent, the
  item has expired, the stored value is not a string, or the stored text does not
  decode. Its only result is that answer: a decoding error is not told apart from a miss.
\<close>

theorem GetJSON_false_iff:
  "Manager_GetJSON unmarshal now m key = None \<longleftrightarrow>
     (case items m key of
        None \<Rightarrow> True
      | Some item \<Rightarrow>
          (0 < Expiration item \<and> Expiration item < now)
          \<or> (case Object item of VString jsonStr \<Rightarrow> unmarshal jsonStr = None | VOther x \<Rightarrow> True))"
  by (auto simp: Manager_GetJSON_def cache_Get_def split: option.splits val.splits)

text \<open>A stored value that is not a string is a miss; a stored string that decodes is a hit.\<close>

theorem GetJSON_false_iff_witness:
  "Manager_GetJSON (\<lambda>s. Some s) 5 (Manager_Set 1 NewManager ''k'' (VOther 7) 0) ''k'' = None
   \<and> Manager_GetJSON (\<lambda>s. Some s) 5 (Manager_Set 1 NewManager ''k'' (VString ''x'') 0) ''k''
       \<noteq> None"
proof -
  have "items (Manager_Set 1 NewManager ''k'' (VOther 7) 0) ''k''
      = Some \<lparr>Object = VOther 7, Expiration = 31536000000000001\<rparr>"
    and "items (Manager_Set 1 NewManager ''k'' (VString ''x'') 0) ''k''
      = Some \<lparr>Object = VString ''x'', Expiration = 31536000000000001\<rparr>"
    by (simp_all add: Manager_Set_def cache_Set_def NewManager_def cache_New_def
        DefaultExpiration_def StaticDataTTL_val int64_def)
  then show ?thesis
    using GetJSON_false_iff [of "\<lambda>s. Some s" 5 "Manager_Set 1 NewManager ''k'' (VOther 7) 0" "''k''"]
      GetJSON_false_iff [of "\<lambda>s. Some s" 5 "Manager_Set 1 NewManager ''k'' (VString ''x'') 0" "''k''"]
    by auto
qed

section \<open>The wiki client\<close>

text \<open>
  \<^verbatim>\<open>strings.ToLower\<close>: an ASCII-only string is mapped byte by byte; any other string
  goes through \<^verbatim>\<open>Map(unicode.ToLower, s)\<close>, whose case tables are not part of the
  repository and are an argument here.
\<close>

definition isASCII :: "string \<Rightarrow> bool" where
  "isASCII s = list_all (\<lambda>c. (of_char c :: nat) < 128) s"

definition lowerByte :: "char \<Rightarrow> char" where
  "lowerByte c =
     (if 65 \<le> (of_char c :: nat) \<and> (of_char c :: nat) \<le> 90
      then char_of ((of_char c :: nat) + 32) else c)"

definition ToLower :: "(string \<Rightarrow> string) \<Rightarrow> string \<Rightarrow> string" where
  "ToLower mapUnicodeLower s = (if isASCII s then map lowerByte s else mapUnicodeLower s)"

text \<open>\<^verbatim>\<open>fmt.Sprintf("%d", n)\<close>.\<close>

function natDigits :: "nat \<Rightarrow> string" where
  "natDigits n =
     (if n < 10 then [char_of (48 + n)]
      else natDigits (n div 10) @ [char_of (48 + n mod 10)])"
  by pat_completeness auto
termination
  by (relation "measure id") auto

definition formatInt :: "int \<Rightarrow> string" where
  "formatInt i = (if i < 0 then CHR ''-'' # natDigits (nat (- i)) else natDigits (nat i))"

text \<open>
  \<^verbatim>\<open>url.Values.Encode\<close> writes the parameters sorted by key, each key and value
  query-escaped. The call sites below list their parameters in that order.
\<close>

fun joinWith :: "string \<Rightarrow> string list \<Rightarrow> string" where
  "joinWith sep [] = []"
| "joinWith sep [x] = x"
| "joinWith sep (x # y # zs) = x @ sep @ joinWith sep (y # zs)"

definition Encode :: "(string \<times> string) list \<Rightarrow> string" where
  "Encode params = joinWith ''&'' (map (\<lambda>(k, v). QueryEscape k @ ''='' @ QueryEscape v) params)"

definition wikiBaseURL :: string where
  "wikiBaseURL = ''https://wiki.guildwars2.com''"

definition wikiAPIURL :: string where
  "wikiAPIURL = wikiBaseURL @ ''/api.php''"

record SearchResult =
  Title :: string
  PageID :: int
  Size :: int
  WordCount :: int
  Snippet :: string
  Timestamp :: string
  URL :: string
  Extract :: string

record SearchResponse =
  Query :: string
  Results :: "SearchResult list"
  Total :: int
  SearchedAt :: int

text \<open>
  The decoded envelopes of the upstream API. \<open>api_Search\<close> is \<^verbatim>\<open>Query.Search\<close>,
  \<open>api_TotalHits\<close> is \<^verbatim>\<open>Query.SearchInfo.TotalHits\<close>. \<open>Pages\<close> is the Go map
  \<^verbatim>\<open>Query.Pages\<close> as the list of its values in the order in which the
  \<^verbatim>\<open>range\<close> loop of \<^verbatim>\<open>getPageExtract\<close> visits them.
\<close>

record SearchItem =
  api_NS :: int
  api_Title :: string
  api_PageID :: int
  api_Size :: int
  api_WordCount :: int
  api_Snippet :: string
  api_Timestamp :: string

record WikiAPIResponse =
  api_BatchComplete :: string
  api_Search :: "SearchItem list"
  api_TotalHits :: int

record Page =
  page_PageID :: int
  page_NS :: int
  page_Title :: string
  page_Extract :: string

record PageContentResponse =
  pages_BatchComplete :: string
  Pages :: "Page list"

text \<open>
  What lies outside the repository. \<open>httpDo\<close> is the network as
  \<^verbatim>\<open>httpClient.Do\<close> sees it: given the URLs requested so far and the URL of a GET
  request it yields the reply and the nanoseconds that passed. A reply is an error of
  the transport (cancellation and time-out included) or a status code with a body. The
  decoders and the codec of \<^verbatim>\<open>SearchResponse\<close> are those of \<^verbatim>\<open>encoding/json\<close>;
  \<open>None\<close> is their error.
\<close>

datatype reply = TransportFailure string | Response nat string

record externals =
  httpDo :: "string list \<Rightarrow> string \<Rightarrow> reply \<times> nat"
  decodeSearch :: "string \<Rightarrow> WikiAPIResponse option"
  decodePages :: "string \<Rightarrow> PageContentResponse option"
  marshal :: "SearchResponse \<Rightarrow> string option"
  unmarshal :: "string \<Rightarrow> SearchResponse option"
  mapUnicodeLower :: "string \<Rightarrow> string"

text \<open>
  The state that the client reads and writes: the manager's store, the clock
  (\<^verbatim>\<open>time.Now().UnixNano()\<close>) and the URLs of the outbound requests made so far.
  Log lines are not part of the state.
\<close>

record world =
  cache :: Cache
  clock :: int
  sent :: "string list"

definition request :: "externals \<Rightarrow> world \<Rightarrow> string \<Rightarrow> reply \<times> world" where
  "request X w url =
     (let (resp, dt) = httpDo X (sent w) url
      in (resp, w\<lparr>clock := clock w + int dt, sent := sent w @ [url]\<rparr>))"

definition performSearch ::
    "externals \<Rightarrow> world \<Rightarrow> string \<Rightarrow> int \<Rightarrow> (error + SearchResult list) \<times> world" where
  "performSearch X w query limit =
     (let params = [(''action'', ''query''), (''format'', ''json''), (''list'', ''search''),
                    (''srlimit'', formatInt limit),
                    (''srprop'', ''size|wordcount|timestamp|snippet''),
                    (''srsearch'', query)];
          searchURL = wikiAPIURL @ ''?'' @ Encode params;
          (resp, w) = request X w searchURL
      in case resp of
           TransportFailure err \<Rightarrow> (Inl (DoError err), w)
         | Response status body \<Rightarrow>
             if status \<noteq> 200 then (Inl (SearchStatusError status body), w)
             else (case decodeSearch X body of
                     None \<Rightarrow> (Inl SearchDecodeError, w)
                   | Some apiResponse \<Rightarrow>
                       (Inr (map (\<lambda>item.
                                \<lparr>Title = api_Title item,
                                 PageID = api_PageID item,
                                 Size = api_Size item,
                                 WordCount = api_WordCount item,
                                 Snippet = cleanSnippet (api_Snippet item),
                                 Timestamp = api_Timestamp item,
                                 URL = '''',
                                 Extract = ''''\<rparr>) (api_Search apiResponse)), w)))"

definition getPageExtract :: "externals \<Rightarrow> world \<Rightarrow> string \<Rightarrow> (error + string) \<times> world" where
  "getPageExtract X w title =
     (let cacheKey = GetWikiPageKey title
      in case Manager_GetString (clock w) (cache w) cacheKey of
           Some extract \<Rightarrow> (Inr extract, w)
         | None \<Rightarrow>
             (let params = [(''action'', ''query''), (''exchars'', ''500''), (''exintro'', ''true''),
                            (''explaintext'', ''true''), (''exsectionformat'', ''plain''),
                            (''format'', ''json''), (''prop'', ''extracts''), (''titles'', title)];
                  extractURL = wikiAPIURL @ ''?'' @ Encode params;
                  (resp, w) = request X w extractURL
              in case resp of
                   TransportFailure err \<Rightarrow> (Inl (DoError err), w)
                 | Response status body \<Rightarrow>
                     if status \<noteq> 200 then (Inl (ExtractStatusError status), w)
                     else (case decodePages X body of
                             None \<Rightarrow> (Inl ExtractDecodeError, w)
                           | Some contentResponse \<Rightarrow>
                               (let extract = (case Pages contentResponse of
                                                 [] \<Rightarrow> ''''
                                               | page # _ \<Rightarrow> page_Extract page)
                                in (Inr extract,
                                    w\<lparr>cache := Manager_Set (clock w) (cache w) cacheKey
                                                  (VString extract) WikiDataTTL\<rparr>)))))"

text \<open>The loop \<^verbatim>\<open>for i := range searchResults\<close> of \<^verbatim>\<open>Search\<close>.\<close>

fun enhance :: "externals \<Rightarrow> world \<Rightarrow> SearchResult list \<Rightarrow> SearchResult list \<times> world" where
  "enhance X w [] = ([], w)"
| "enhance X w (r # rs) =
     (let (res, w) = getPageExtract X w (Title r);
          r = (case res of Inl err \<Rightarrow> r | Inr extract \<Rightarrow> r\<lparr>Extract := extract\<rparr>);
          r = r\<lparr>URL := wikiBaseURL @ ''/wiki/'' @ QueryEscape (Title r)\<rparr>;
          (rs, w) = enhance X w rs
      in (r # rs, w))"

definition searchCacheKey :: "externals \<Rightarrow> string \<Rightarrow> string" where
  "searchCacheKey X query =
     (let normalizedQuery = ToLower (mapUnicodeLower X) (TrimSpace query)
      in GetWikiSearchKey normalizedQuery)"

definition Search ::
    "externals \<Rightarrow> world \<Rightarrow> string \<Rightarrow> int \<Rightarrow> (error + SearchResponse) \<times> world" where
  "Search X w query limit =
     (let cacheKey = searchCacheKey X query
      in case Manager_GetJSON (unmarshal X) (clock w) (cache w) cacheKey of
           Some searchResponse \<Rightarrow> (Inr searchResponse, w)
         | None \<Rightarrow>
             (case performSearch X w query limit of
                (Inl err, w) \<Rightarrow> (Inl (SearchFailed err), w)
              | (Inr searchResults, w) \<Rightarrow>
                  (let (searchResults, w) = enhance X w searchResults;
                       searchResponse = \<lparr>Query = query,
                                         Results = searchResults,
                                         Total = int (length searchResults),
                                         SearchedAt = clock w\<rparr>;
                       (err, m) = Manager_SetJSON (marshal X) (clock w) (cache w) cacheKey
                                    searchResponse WikiDataTTL
                   in (Inr searchResponse, w\<lparr>cache := m\<rparr>))))"

subsection \<open>A scenario\<close>

text \<open>
  The upstream of \<^verbatim>\<open>TestClient_Search_API\<close>: one search result titled
  \<^verbatim>\<open>Dragon Bash\<close> and an extract for its page. Every request takes 7 ns.
\<close>

definition dragonItem :: SearchItem where
  "dragonItem = \<lparr>api_NS = 0, api_Title = ''Dragon Bash'', api_PageID = 12345, api_Size = 5000,
      api_WordCount = 800, api_Snippet = spanOpen @ ''Dragon</span> Bash is a festival'',
      api_Timestamp = ''2023-07-01T12:00:00Z''\<rparr>"

definition testX :: externals where
  "testX = \<lparr>httpDo = (\<lambda>hist url. (Response 200 (if Contains url ''list=search'' then ''S'' else ''E''), 7)),
     decodeSearch = (\<lambda>b. if b = ''S'' then Some \<lparr>api_BatchComplete = '''', api_Search = [dragonItem], api_TotalHits = 1\<rparr> else None),
     decodePages = (\<lambda>b. if b = ''E'' then Some \<lparr>pages_BatchComplete = '''', Pages = [\<lparr>page_PageID = 12345, page_NS = 0, page_Title = ''Dragon Bash'', page_Extract = ''Dragon Bash is an annual festival in Guild Wars 2.''\<rparr>]\<rparr> else None),
     marshal = (\<lambda>r. Some (Query r)),
     unmarshal = (\<lambda>s. None),
     mapUnicodeLower = (\<lambda>s. s)\<rparr>"

definition w0 :: world where
  "w0 = \<lparr>cache = NewManager, clock = 1000, sent = []\<rparr>"

subsection \<open>The paths of Search\<close>

lemma GetJSON_hit:
  assumes "items (cache w) key = Some item"
    and "\<not> (0 < Expiration item \<and> Expiration item < clock w)"
    and "Object item = VString jsonStr"
  shows "Manager_GetJSON un (clock w) (cache w) key = un jsonStr"
  using assms by (auto simp: Manager_GetJSON_def cache_Get_def)

lemma Search_hit:
  "Manager_GetJSON (unmarshal X) (clock w) (cache w) (searchCacheKey X query) = Some searchResponse
   \<Longrightarrow> Search X w query limit = (Inr searchResponse, w)"
  by (simp add: Search_def)

lemma Search_miss_error:
  "Manager_GetJSON (unmarshal X) (clock w) (cache w) (searchCacheKey X query) = None \<Longrightarrow>
   performSearch X w query limit = (Inl err, w1) \<Longrightarrow>
   Search X w query limit = (Inl (SearchFailed err), w1)"
  by (simp add: Search_def)

lemma Search_miss:
  "Manager_GetJSON (unmarshal X) (clock w) (cache w) (searchCacheKey X query) = None \<Longrightarrow>
   performSearch X w query limit = (Inr rs, w1) \<Longrightarrow>
   enhance X w1 rs = (rs', w2) \<Longrightarrow>
   Search X w query limit =
     (Inr \<lparr>Query = query, Results = rs', Total = int (length rs'), SearchedAt = clock w2\<rparr>,
      w2\<lparr>cache := snd (Manager_SetJSON (marshal X) (clock w2) (cache w2) (searchCacheKey X query)
          \<lparr>Query = query, Results = rs', Total = int (length rs'), SearchedAt = clock w2\<rparr>
          WikiDataTTL)\<rparr>)"
  by (simp add: Search_def Let_def split: prod.splits)

text \<open>
  Claim C1. When the store holds, under the search key of the query, an unexpired item
  whose value is a string that decodes to a \<^verbatim>\<open>SearchResponse\<close>, \<^verbatim>\<open>Search\<close> returns
  that response and leaves the state as it was: no request is sent, and nothing is
  read from or written to the store for the results it contains.
\<close>

theorem Search_cache_hit:
  assumes "items (cache w) (searchCacheKey X query) = Some item"
    and "\<not> (0 < Expiration item \<and> Expiration item < clock w)"
    and "Object item = VString jsonStr"
    and "unmarshal X jsonStr = Some searchResponse"
  shows "Search X w query limit = (Inr searchResponse, w)"
proof -
  have "Manager_GetJSON (unmarshal X) (clock w) (cache w) (searchCacheKey X query)
      = Some searchResponse"
    using GetJSON_hit [OF assms(1-3), of "unmarshal X"] assms(4) by simp
  then show ?thesis by (rule Search_hit)
qed

subsection \<open>A seeded store\<close>

text \<open>
  The scenario of \<^verbatim>\<open>TestClient_Search_Cache\<close>: a response stored for one minute
  under the key of \<^verbatim>\<open>test query\<close>.
\<close>

definition mockResponse :: SearchResponse where
  "mockResponse =
     \<lparr>Query = ''test query'',
      Results = [\<lparr>Title = ''Test Page'', PageID = 123, Size = 0, WordCount = 0, Snippet = '''',
                  Timestamp = '''', URL = '''', Extract = ''''\<rparr>],
      Total = 1, SearchedAt = 0\<rparr>"

definition mockX :: externals where
  "mockX = testX\<lparr>marshal := (\<lambda>r. Some ''mock''),
                  unmarshal := (\<lambda>s. if s = ''mock'' then Some mockResponse else None)\<rparr>"

definition mockWorld :: world where
  "mockWorld =
     \<lparr>cache = snd (Manager_SetJSON (marshal mockX) 1000 NewManager
                      (GetWikiSearchKey ''test query'') mockResponse Minute),
      clock = 1000, sent = []\<rparr>"

lemma mockWorld_item:
  "items (cache mockWorld) ''wiki:search:test query''
     = Some \<lparr>Object = VString ''mock'', Expiration = 60000001000\<rparr>"
  by (simp add: mockWorld_def mockX_def Manager_SetJSON_def cache_Set_def NewManager_def
      cache_New_def DefaultExpiration_def Minute_def Second_def Nanosecond_def int64_def
      GetWikiSearchKey_def)

lemma mockX_keys:
  "searchCacheKey mockX ''test query'' = ''wiki:search:test query''"
  "searchCacheKey mockX ''  Test QUERY '' = ''wiki:search:test query''"
  by code_simp+

theorem Search_cache_hit_witness:
  "Search mockX mockWorld ''test query'' 5 = (Inr mockResponse, mockWorld)"
proof -
  have "unmarshal mockX ''mock'' = Some mockResponse"
    by (simp add: mockX_def)
  moreover have "clock mockWorld = 1000"
    by (simp add: mockWorld_def)
  ultimately show ?thesis
    using Search_cache_hit [of mockWorld mockX "''test query''"
        "\<lparr>Object = VString ''mock'', Expiration = 60000001000\<rparr>" "''mock''" mockResponse 5]
    by (simp add: mockWorld_item mockX_keys)
qed

text \<open>
  Claim C10. The search key is a function of the query alone. On a hit, every call
  whose query has the same key gets the cached response, whatever its limit, and the
  state stays as it was, so no call sends a request.
\<close>

theorem Search_ignores_limit:
  assumes "Manager_GetJSON (unmarshal X) (clock w) (cache w) (searchCacheKey X query)
             = Some searchResponse"
    and "searchCacheKey X query' = searchCacheKey X query"
  shows "Search X w query limit = (Inr searchResponse, w)
       \<and> Search X w query' limit' = (Inr searchResponse, w)"
  using assms by (simp add: Search_hit)

theorem Search_ignores_limit_witness:
  "Search mockX mockWorld ''test query'' 1 = (Inr mockResponse, mockWorld)
   \<and> Search mockX mockWorld ''  Test QUERY '' 50 = (Inr mockResponse, mockWorld)"
proof -
  have "Manager_GetJSON (unmarshal mockX) (clock mockWorld) (cache mockWorld)
      (searchCacheKey mockX ''test query'') = Some mockResponse"
    by (simp add: Manager_GetJSON_def cache_Get_def mockX_keys mockWorld_item)
      (simp add: mockX_def mockWorld_def)
  then show ?thesis
    using Search_ignores_limit [of mockX mockWorld "''test query''" mockResponse
        "''  Test QUERY ''" 1 50]
    by (simp add: mockX_keys)
qed

subsection \<open>The enrichment loop\<close>

text \<open>The outcomes of the extract fetches of the loop, one for each title, in order.\<close>

fun extractOutcomes :: "externals \<Rightarrow> world \<Rightarrow> string list \<Rightarrow> (error + string) list" where
  "extractOutcomes X w [] = []"
| "extractOutcomes X w (title # titles) =
     (let (res, w) = getPageExtract X w title in res # extractOutcomes X w titles)"

definition extractField :: "error + string \<Rightarrow> string" where
  "extractField res = (case res of Inl err \<Rightarrow> '''' | Inr extract \<Rightarrow> extract)"

definition bare :: "SearchResult \<Rightarrow> SearchResult" where
  "bare r = r\<lparr>URL := '''', Extract := ''''\<rparr>"

lemma enhance_bare: "map bare (fst (enhance X w rs)) = map bare rs"
  by (induction rs arbitrary: w) (simp_all add: bare_def Let_def case_prod_beta split: sum.splits)

lemma enhance_URL:
  "map URL (fst (enhance X w rs)) = map (\<lambda>r. wikiBaseURL @ ''/wiki/'' @ QueryEscape (Title r)) rs"
  by (induction rs arbitrary: w) (simp_all add: Let_def case_prod_beta split: sum.splits)

lemma enhance_Extract:
  "list_all (\<lambda>r. Extract r = '''') rs \<Longrightarrow>
   map Extract (fst (enhance X w rs)) = map extractField (extractOutcomes X w (map Title rs))"
  by (induction rs arbitrary: w)
    (simp_all add: Let_def case_prod_beta extractField_def split: sum.splits)

lemma performSearch_bare:
  "performSearch X w query limit = (Inr rs, w1) \<Longrightarrow> list_all (\<lambda>r. Extract r = '''') rs"
  by (auto simp: performSearch_def Let_def list_all_iff
      split: prod.splits reply.splits if_splits option.splits)

lemma Search_miss_results:
  assumes "Manager_GetJSON (unmarshal X) (clock w) (cache w) (searchCacheKey X query) = None"
    and "performSearch X w query limit = (Inr rs, w1)"
  shows "\<exists>w'. Search X w query limit =
           (Inr \<lparr>Query = query, Results = fst (enhance X w1 rs),
                  Total = int (length (fst (enhance X w1 rs))),
                  SearchedAt = clock (snd (enhance X w1 rs))\<rparr>, w')"
  using Search_miss [OF assms, of "fst (enhance X w1 rs)" "snd (enhance X w1 rs)"] by simp

text \<open>
  Claim C5, as amended. When the search request succeeds, \<^verbatim>\<open>Search\<close> succeeds, whatever
  the extract fetches do. Its results are the decoded results in their order, changed
  only in the fields \<^verbatim>\<open>Extract\<close> and \<^verbatim>\<open>URL\<close>: the extract of a result whose fetch
  failed is empty, the extract of any other result is the text that its fetch returned,
  and every URL starts with the wiki's page path.
\<close>

theorem Search_extract_failures:
  assumes "Manager_GetJSON (unmarshal X) (clock w) (cache w) (searchCacheKey X query) = None"
    and "performSearch X w query limit = (Inr rs, w1)"
  shows "case fst (Search X w query limit) of
           Inl err \<Rightarrow> False
         | Inr searchResponse \<Rightarrow>
             map bare (Results searchResponse) = rs
           \<and> map Extract (Results searchResponse)
               = map extractField (extractOutcomes X w1 (map Title rs))
           \<and> list_all (\<lambda>r. HasPrefix (URL r) (wikiBaseURL @ ''/wiki/'')) (Results searchResponse)"
proof -
  from Search_miss_results [OF assms] obtain w' where
    s: "Search X w query limit =
           (Inr \<lparr>Query = query, Results = fst (enhance X w1 rs),
                  Total = int (length (fst (enhance X w1 rs))),
                  SearchedAt = clock (snd (enhance X w1 rs))\<rparr>, w')" ..
  have fresh: "list_all (\<lambda>r. Extract r = '''') rs"
    using assms(2) by (rule performSearch_bare)
  have "map bare rs = rs"
    using assms(2)
    by (auto simp: performSearch_def Let_def bare_def
        split: prod.splits reply.splits if_splits option.splits)
  then have a: "map bare (fst (enhance X w1 rs)) = rs"
    by (simp add: enhance_bare)
  have b: "map Extract (fst (enhance X w1 rs))
      = map extractField (extractOutcomes X w1 (map Title rs))"
    using fresh by (rule enhance_Extract)
  have "list_all (\<lambda>u. HasPrefix u (wikiBaseURL @ ''/wiki/'')) (map URL (fst (enhance X w1 rs)))"
    unfolding enhance_URL by (simp add: list_all_iff HasPrefix_def)
  then have c: "list_all (\<lambda>r. HasPrefix (URL r) (wikiBaseURL @ ''/wiki/'')) (fst (enhance X w1 rs))"
    by (simp add: list_all_iff)
  from a b c show ?thesis by (simp add: s)
qed

subsection \<open>Three results, one failing extract\<close>

definition titled :: "string \<Rightarrow> SearchItem" where
  "titled t = \<lparr>api_NS = 0, api_Title = t, api_PageID = 1, api_Size = 10, api_WordCount = 2,
      api_Snippet = t, api_Timestamp = ''''\<rparr>"

definition threeX :: externals where
  "threeX =
     \<lparr>httpDo = (\<lambda>hist url.
         if Contains url ''list=search'' then (Response 200 ''S'', 7)
         else if Contains url ''titles=B'' then (Response 500 ''down'', 7)
         else (Response 200 ''E'', 7)),
      decodeSearch = (\<lambda>b. if b = ''S''
         then Some \<lparr>api_BatchComplete = '''', api_Search = [titled ''A'', titled ''B'', titled ''C''],
                     api_TotalHits = 3\<rparr>
         else None),
      decodePages = (\<lambda>b. if b = ''E''
         then Some \<lparr>pages_BatchComplete = '''',
                     Pages = [\<lparr>page_PageID = 1, page_NS = 0, page_Title = '''', page_Extract = ''text''\<rparr>]\<rparr>
         else None),
      marshal = (\<lambda>r. Some (Query r)),
      unmarshal = (\<lambda>s. None),
      mapUnicodeLower = (\<lambda>s. s)\<rparr>"

definition threeResults :: "SearchResult list" where
  "threeResults = map (\<lambda>t. \<lparr>Title = t, PageID = 1, Size = 10, WordCount = 2, Snippet = t,
      Timestamp = '''', URL = '''', Extract = ''''\<rparr>) [''A'', ''B'', ''C'']"

theorem Search_extract_failures_witness:
  "case fst (Search threeX w0 ''abc'' 5) of
     Inl err \<Rightarrow> False
   | Inr searchResponse \<Rightarrow>
       map bare (Results searchResponse) = threeResults
     \<and> map Extract (Results searchResponse) = [''text'', '''', ''text'']
     \<and> list_all (\<lambda>r. HasPrefix (URL r) (wikiBaseURL @ ''/wiki/'')) (Results searchResponse)"
proof -
  define w1 where "w1 = snd (performSearch threeX w0 ''abc'' 5)"
  have miss: "Manager_GetJSON (unmarshal threeX) (clock w0) (cache w0)
      (searchCacheKey threeX ''abc'') = None"
    by (simp add: threeX_def Manager_GetJSON_def cache_Get_def w0_def NewManager_def cache_New_def)
  have "fst (performSearch threeX w0 ''abc'' 5) = Inr threeResults"
    by code_simp
  then have ps: "performSearch threeX w0 ''abc'' 5 = (Inr threeResults, w1)"
    by (simp add: w1_def prod_eq_iff)
  have out: "map extractField (extractOutcomes threeX w1 (map Title threeResults))
      = [''text'', '''', ''text'']"
    unfolding w1_def by code_simp
  show ?thesis
    using Search_extract_failures [OF miss ps] by (simp add: out split: sum.splits)
qed

text \<open>
  Claim C5 as stated fails in the word "exactly". Take the three results above with an
  upstream that answers the extract requests for \<^verbatim>\<open>A\<close> and \<^verbatim>\<open>C\<close> with no page
  entry and fails the one for \<^verbatim>\<open>B\<close>: the fetch for \<^verbatim>\<open>B\<close> fails, the other two
  succeed with the empty text, and all three results have an empty extract, not only
  the failing one.
\<close>

definition emptyX :: externals where
  "emptyX = threeX\<lparr>decodePages := (\<lambda>b. Some \<lparr>pages_BatchComplete = '''', Pages = []\<rparr>)\<rparr>"

theorem Search_empty_extract_counterexample:
  "extractOutcomes emptyX (snd (performSearch emptyX w0 ''abc'' 5)) [''A'', ''B'', ''C'']
     = [Inr '''', Inl (ExtractStatusError 500), Inr '''']
   \<and> (case fst (Search emptyX w0 ''abc'' 5) of
         Inl err \<Rightarrow> False
       | Inr searchResponse \<Rightarrow>
           map Title (Results searchResponse) = [''A'', ''B'', ''C'']
         \<and> map Extract (Results searchResponse) = ['''', '''', ''''])"
  by code_simp

text \<open>
  Claim C3 on the scenario. \<^verbatim>\<open>Search\<close> escapes the title with \<^verbatim>\<open>url.QueryEscape\<close>,
  which writes a space as \<^verbatim>\<open>+\<close>; the path escaping that the test
  \<^verbatim>\<open>TestSearchResult_URLGeneration\<close> expects writes it as \<^verbatim>\<open>%20\<close>.
\<close>

theorem Search_URL_Dragon_Bash:
  "(case fst (Search testX w0 ''Dragon Bash'' 5) of
      Inl err \<Rightarrow> False
    | Inr searchResponse \<Rightarrow>
        map URL (Results searchResponse) = [''https://wiki.guildwars2.com/wiki/Dragon+Bash''])
   \<and> wikiBaseURL @ ''/wiki/'' @ PathEscape ''Dragon Bash''
       = ''https://wiki.guildwars2.com/wiki/Dragon%20Bash''"
  by code_simp

text \<open>
  Claim C6, as amended. After a miss and a successful search request, \<^verbatim>\<open>Search\<close>
  returns the assembled response, whose \<^verbatim>\<open>Query\<close> is the query as given. If the
  response serialises, its text is stored with \<^verbatim>\<open>WikiDataTTL\<close> under the key of the
  normalised query, which is the key of the lookup; if it does not, the store is left
  as the enrichment loop left it and the response is returned all the same.
\<close>

theorem Search_stores_response:
  assumes "Manager_GetJSON (unmarshal X) (clock w) (cache w) (searchCacheKey X query) = None"
    and "performSearch X w query limit = (Inr rs, w1)"
  shows "case Search X w query limit of
           (Inl err, w') \<Rightarrow> False
         | (Inr searchResponse, w') \<Rightarrow>
             Query searchResponse = query
           \<and> (case marshal X searchResponse of
                 None \<Rightarrow> cache w' = cache (snd (enhance X w1 rs))
               | Some jsonData \<Rightarrow>
                   cache w' = Manager_Set (clock w') (cache (snd (enhance X w1 rs)))
                                (searchCacheKey X query) (VString jsonData) WikiDataTTL
                 \<and> items (cache w') (searchCacheKey X query)
                     = Some \<lparr>Object = VString jsonData,
                             Expiration = int64 (clock w' + WikiDataTTL)\<rparr>)"
proof -
  have ttl: "WikiDataTTL = 86400000000000"
    by (simp add: WikiDataTTL_def Hour_def Minute_def Second_def Nanosecond_def)
  show ?thesis
    using Search_miss [OF assms, of "fst (enhance X w1 rs)" "snd (enhance X w1 rs)"]
    by (simp add: Manager_SetJSON_def Manager_Set_def cache_Set_def DefaultExpiration_def
        Let_def ttl split: option.splits)
qed

theorem Search_stores_response_witness:
  "case Search testX w0 ''Dragon Bash'' 5 of
     (Inl err, w') \<Rightarrow> False
   | (Inr searchResponse, w') \<Rightarrow>
       Query searchResponse = ''Dragon Bash''
     \<and> items (cache w') ''wiki:search:dragon bash''
         = Some \<lparr>Object = VString ''Dragon Bash'', Expiration = 86400000001014\<rparr>"
proof -
  define w1 where "w1 = snd (performSearch testX w0 ''Dragon Bash'' 5)"
  define rs where "rs = [\<lparr>Title = ''Dragon Bash'', PageID = 12345, Size = 5000, WordCount = 800,
      Snippet = ''Dragon Bash is a festival'', Timestamp = ''2023-07-01T12:00:00Z'',
      URL = '''', Extract = ''''\<rparr>]"
  have miss: "Manager_GetJSON (unmarshal testX) (clock w0) (cache w0)
      (searchCacheKey testX ''Dragon Bash'') = None"
    by (simp add: testX_def Manager_GetJSON_def cache_Get_def w0_def NewManager_def cache_New_def)
  have "fst (performSearch testX w0 ''Dragon Bash'' 5) = Inr rs"
    unfolding rs_def by code_simp
  then have ps: "performSearch testX w0 ''Dragon Bash'' 5 = (Inr rs, w1)"
    by (simp add: w1_def prod_eq_iff)
  have key: "searchCacheKey testX ''Dragon Bash'' = ''wiki:search:dragon bash''"
    by code_simp
  have m: "marshal testX = (\<lambda>r. Some (Query r))"
    by (simp add: testX_def)
  have c: "clock (snd (Search testX w0 ''Dragon Bash'' 5)) = 1014"
    by code_simp
  have ttl: "WikiDataTTL = 86400000000000"
    by (simp add: WikiDataTTL_def Hour_def Minute_def Second_def Nanosecond_def)
  show ?thesis
    using Search_stores_response [OF miss ps] c
    by (auto simp: key m ttl int64_def split: prod.splits sum.splits)
qed

text \<open>
  Claim C6 as stated fails: nothing is stored under the key of the query as given.
\<close>

theorem Search_store_key_counterexample:
  "items (cache (snd (Search testX w0 ''Dragon Bash'' 5))) (GetWikiSearchKey ''Dragon Bash'') = None
   \<and> items (cache (snd (Search testX w0 ''Dragon Bash'' 5))) (GetWikiSearchKey ''dragon bash'')
       = Some \<lparr>Object = VString ''Dragon Bash'', Expiration = 86400000001014\<rparr>"
  by code_simp

subsection \<open>The total of an assembled response\<close>

definition withTotalHits :: "int \<Rightarrow> externals \<Rightarrow> externals" where
  "withTotalHits n X =
     X\<lparr>decodeSearch := (\<lambda>body. map_option (\<lambda>a. a\<lparr>api_TotalHits := n\<rparr>) (decodeSearch X body))\<rparr>"

lemma performSearch_withTotalHits:
  "performSearch (withTotalHits n X) w query limit = performSearch X w query limit"
  by (simp add: performSearch_def request_def withTotalHits_def Let_def
      split: prod.splits reply.splits option.splits)

lemma request_withTotalHits: "request (withTotalHits n X) = request X"
  by (intro ext) (simp add: request_def withTotalHits_def)

lemma getPageExtract_withTotalHits:
  "getPageExtract (withTotalHits n X) w title = getPageExtract X w title"
proof -
  have dp: "decodePages (withTotalHits n X) = decodePages X"
    by (simp add: withTotalHits_def)
  show ?thesis
    unfolding getPageExtract_def request_withTotalHits dp ..
qed

lemma enhance_withTotalHits: "enhance (withTotalHits n X) w rs = enhance X w rs"
  by (induction rs arbitrary: w) (simp_all add: getPageExtract_withTotalHits)

lemma Search_withTotalHits:
  "Search (withTotalHits n X) w query limit = Search X w query limit"
proof -
  have k: "searchCacheKey (withTotalHits n X) query = searchCacheKey X query"
    and u: "unmarshal (withTotalHits n X) = unmarshal X"
    and m: "marshal (withTotalHits n X) = marshal X"
    by (simp_all add: searchCacheKey_def withTotalHits_def)
  show ?thesis
    unfolding Search_def performSearch_withTotalHits enhance_withTotalHits k u m ..
qed

text \<open>
  Claim C9. In a response that \<^verbatim>\<open>Search\<close> assembles after a miss, \<^verbatim>\<open>Total\<close> is the
  number of results. The upstream's \<^verbatim>\<open>totalhits\<close> plays no part: replacing it in the
  decoded envelope by any number \<open>n\<close> changes neither the result nor the state.
\<close>

theorem Search_Total:
  assumes "Manager_GetJSON (unmarshal X) (clock w) (cache w) (searchCacheKey X query) = None"
  shows "(case fst (Search X w query limit) of
            Inl err \<Rightarrow> True
          | Inr searchResponse \<Rightarrow> Total searchResponse = int (length (Results searchResponse)))
       \<and> Search (withTotalHits n X) w query limit = Search X w query limit"
proof -
  obtain res w1 where ps: "performSearch X w query limit = (res, w1)"
    by (cases "performSearch X w query limit")
  have "case fst (Search X w query limit) of
            Inl err \<Rightarrow> True
          | Inr searchResponse \<Rightarrow> Total searchResponse = int (length (Results searchResponse))"
  proof (cases res)
    case (Inl err)
    with Search_miss_error [OF assms] ps show ?thesis by simp
  next
    case (Inr rs)
    with Search_miss [OF assms, of limit rs w1 "fst (enhance X w1 rs)" "snd (enhance X w1 rs)"] ps
    show ?thesis by simp
  qed
  then show ?thesis by (simp add: Search_withTotalHits)
qed

theorem Search_Total_witness:
  "case fst (Search (withTotalHits 250 testX) w0 ''Dragon Bash'' 5) of
     Inl err \<Rightarrow> False
   | Inr searchResponse \<Rightarrow> Total searchResponse = 1 \<and> length (Results searchResponse) = 1"
proof -
  have miss: "Manager_GetJSON (unmarshal testX) (clock w0) (cache w0)
      (searchCacheKey testX ''Dragon Bash'') = None"
    by (simp add: testX_def Manager_GetJSON_def cache_Get_def w0_def NewManager_def cache_New_def)
  have "case fst (Search testX w0 ''Dragon Bash'' 5) of
      Inl err \<Rightarrow> False | Inr searchResponse \<Rightarrow> length (Results searchResponse) = 1"
    by code_simp
  then show ?thesis
    using Search_Total [OF miss, of 5 250] by (auto split: sum.splits)
qed

subsection \<open>Normalising the query\<close>

definition asciiSpace :: "char \<Rightarrow> bool" where
  "asciiSpace c = (c \<in> set [CHR 0x09, CHR 0x0A, CHR 0x0B, CHR 0x0C, CHR 0x0D, CHR 0x20])"



lemma asciiSpace_ascii: "asciiSpace c \<Longrightarrow> (of_char c :: nat) < 128"
  by (auto simp: asciiSpace_def)























subsection \<open>White space around any query\<close>



























end
